theory Spec2Isabelle
  imports Complex_Main "HOL-Library.Multiset"
begin

section \<open>JavaScript numbers\<close>

text \<open>
  Every number of \<open>app.js\<close> is a JavaScript number. The model keeps the three special
  values apart from the finite ones, because the code starts its bounding boxes at
  \<open>Infinity\<close> and because comparisons with \<open>NaN\<close> are false. Finite arithmetic is
  exact here: rounding to the nearest double, overflow to an infinity and the sign of
  zero are not modelled.
\<close>

datatype jsnum = Fin real | PInf | NInf | NaN

fun is_fin :: "jsnum \<Rightarrow> bool" where
  "is_fin (Fin a) = True"
| "is_fin PInf = False"
| "is_fin NInf = False"
| "is_fin NaN = False"

fun num :: "jsnum \<Rightarrow> real" where
  "num (Fin a) = a"
| "num PInf = 0"
| "num NInf = 0"
| "num NaN = 0"

fun js_neg :: "jsnum \<Rightarrow> jsnum" where
  "js_neg (Fin a) = Fin (- a)"
| "js_neg PInf = NInf"
| "js_neg NInf = PInf"
| "js_neg NaN = NaN"

fun js_add :: "jsnum \<Rightarrow> jsnum \<Rightarrow> jsnum" where
  "js_add (Fin a) (Fin b) = Fin (a + b)"
| "js_add NaN _ = NaN"
| "js_add _ NaN = NaN"
| "js_add PInf NInf = NaN"
| "js_add NInf PInf = NaN"
| "js_add PInf _ = PInf"
| "js_add _ PInf = PInf"
| "js_add NInf _ = NInf"
| "js_add _ NInf = NInf"

definition js_sub :: "jsnum \<Rightarrow> jsnum \<Rightarrow> jsnum" where
  "js_sub a b = js_add a (js_neg b)"

fun js_sign :: "jsnum \<Rightarrow> int" where
  "js_sign (Fin a) = (if a = 0 then 0 else if 0 < a then 1 else - 1)"
| "js_sign PInf = 1"
| "js_sign NInf = - 1"
| "js_sign NaN = 0"

fun js_mul :: "jsnum \<Rightarrow> jsnum \<Rightarrow> jsnum" where
  "js_mul (Fin a) (Fin b) = Fin (a * b)"
| "js_mul NaN _ = NaN"
| "js_mul _ NaN = NaN"
| "js_mul a b =
     (if js_sign a * js_sign b = 0 then NaN
      else if 0 < js_sign a * js_sign b then PInf else NInf)"

fun js_div :: "jsnum \<Rightarrow> jsnum \<Rightarrow> jsnum" where
  "js_div (Fin a) (Fin b) =
     (if b = 0 then (if a = 0 then NaN else if 0 < a then PInf else NInf)
      else Fin (a / b))"
| "js_div NaN _ = NaN"
| "js_div _ NaN = NaN"
| "js_div (Fin a) _ = Fin 0"
| "js_div PInf (Fin b) = (if 0 \<le> b then PInf else NInf)"
| "js_div NInf (Fin b) = (if 0 \<le> b then NInf else PInf)"
| "js_div _ _ = NaN"

fun js_le :: "jsnum \<Rightarrow> jsnum \<Rightarrow> bool" where
  "js_le (Fin a) (Fin b) = (a \<le> b)"
| "js_le NaN _ = False"
| "js_le _ NaN = False"
| "js_le NInf _ = True"
| "js_le _ PInf = True"
| "js_le _ _ = False"

fun js_lt :: "jsnum \<Rightarrow> jsnum \<Rightarrow> bool" where
  "js_lt (Fin a) (Fin b) = (a < b)"
| "js_lt NaN _ = False"
| "js_lt _ NaN = False"
| "js_lt PInf _ = False"
| "js_lt _ NInf = False"
| "js_lt _ _ = True"

definition js_ge :: "jsnum \<Rightarrow> jsnum \<Rightarrow> bool" where
  "js_ge a b = js_le b a"

definition js_gt :: "jsnum \<Rightarrow> jsnum \<Rightarrow> bool" where
  "js_gt a b = js_lt b a"

text \<open>\<open>Math.min\<close> and \<open>Math.max\<close> of two arguments: \<open>NaN\<close> as soon as one is.\<close>

fun Math_min :: "jsnum \<Rightarrow> jsnum \<Rightarrow> jsnum" where
  "Math_min NaN _ = NaN"
| "Math_min _ NaN = NaN"
| "Math_min a b = (if js_le a b then a else b)"

fun Math_max :: "jsnum \<Rightarrow> jsnum \<Rightarrow> jsnum" where
  "Math_max NaN _ = NaN"
| "Math_max _ NaN = NaN"
| "Math_max a b = (if js_le a b then b else a)"

text \<open>\<open>Math.round\<close>: the nearest integer, a half rounded up.\<close>

fun Math_round :: "jsnum \<Rightarrow> jsnum" where
  "Math_round (Fin a) = Fin (of_int \<lfloor>a + 1 / 2\<rfloor>)"
| "Math_round PInf = PInf"
| "Math_round NInf = NInf"
| "Math_round NaN = NaN"

section \<open>Data\<close>

text \<open>A detected dot \<open>{x, y, r}\<close>, as \<open>analyzeFrame\<close> pushes it.\<close>

record point =
  x :: jsnum
  y :: jsnum
  r :: jsnum

text \<open>
  What OpenCV reports for one contour: \<open>cv.contourArea\<close>, the \<open>width\<close> and \<open>height\<close>
  of \<open>cv.boundingRect\<close>, and the centre and radius of \<open>cv.minEnclosingCircle\<close>.
\<close>

record candidate =
  area :: jsnum
  width :: jsnum
  height :: jsnum
  center_x :: jsnum
  center_y :: jsnum
  radius :: jsnum

text \<open>
  The globals of \<open>app.js\<close> that the analysis reads. \<open>EPS\<close> is \<open>null\<close> (here \<open>None\<close>)
  until the slider is moved; \<open>work_width\<close> and \<open>work_height\<close> are the size of the
  working canvas.
\<close>

record globals =
  MIN_AREA :: jsnum
  MAX_AREA :: jsnum
  EPS :: "jsnum option"
  cvReady :: bool
  videoWidth :: nat
  work_width :: nat
  work_height :: nat

definition MIN_PTS :: int where
  "MIN_PTS = 1"

text \<open>Reading a property of \<open>undefined\<close> throws a \<open>TypeError\<close>.\<close>

datatype error = TypeError

section \<open>The slider listeners\<close>

text \<open>
  \<open>epsRange.addEventListener("input", e => { EPS = +e.target.value; ... })\<close>: the
  argument is the number that the unary plus makes of the slider's value.
\<close>

definition epsRange_input :: "jsnum \<Rightarrow> globals \<Rightarrow> globals" where
  "epsRange_input v g = g\<lparr>EPS := Some v\<rparr>"

definition minRange_input :: "jsnum \<Rightarrow> globals \<Rightarrow> globals" where
  "minRange_input v g = g\<lparr>MIN_AREA := v\<rparr>"

definition maxRange_input :: "jsnum \<Rightarrow> globals \<Rightarrow> globals" where
  "maxRange_input v g = g\<lparr>MAX_AREA := v\<rparr>"

section \<open>Step 6 of analyzeFrame: contours to dots\<close>

text \<open>
  The two nested tests of the loop over the contours, and the loop itself, which pushes
  a dot for every contour that passes both.
\<close>

definition accepts :: "globals \<Rightarrow> candidate \<Rightarrow> bool" where
  "accepts g c =
     (if js_ge (area c) (MIN_AREA g) \<and> js_le (area c) (MAX_AREA g) then
        (let ratio = js_div (width c) (height c)
         in js_gt ratio (Fin (1 / 2)) \<and> js_lt ratio (Fin 2))
      else False)"

fun filterDots :: "globals \<Rightarrow> candidate list \<Rightarrow> point list \<Rightarrow> point list" where
  "filterDots g [] dots = dots"
| "filterDots g (c # cs) dots =
     (if js_ge (area c) (MIN_AREA g) \<and> js_le (area c) (MAX_AREA g) then
        (let ratio = js_div (width c) (height c)
         in if js_gt ratio (Fin (1 / 2)) \<and> js_lt ratio (Fin 2)
            then filterDots g cs
                   (dots @ [\<lparr>x = center_x c, y = center_y c, r = radius c\<rparr>])
            else filterDots g cs dots)
      else filterDots g cs dots)"

section \<open>dbscan\<close>

text \<open>The test of \<open>regionQuery\<close>: \<open>(dx*dx + dy*dy) <= eps*eps\<close>.\<close>

definition near :: "jsnum \<Rightarrow> point \<Rightarrow> point \<Rightarrow> bool" where
  "near eps p q =
     (let dx = js_sub (x p) (x q); dy = js_sub (y p) (y q)
      in js_le (js_add (js_mul dx dx) (js_mul dy dy)) (js_mul eps eps))"

text \<open>
  \<open>regionQuery(i)\<close>: the indices \<open>j < N\<close> that pass the test, in ascending order.
  \<open>points[i]\<close> is \<open>undefined\<close> from \<open>N\<close> on, and \<open>p.x\<close> throws then.
\<close>

definition regionQuery :: "point list \<Rightarrow> jsnum \<Rightarrow> nat \<Rightarrow> error + nat list" where
  "regionQuery points eps i =
     (if i < length points
      then Inr (filter (\<lambda>j. near eps (points ! i) (points ! j)) [0..<length points])
      else Inl TypeError)"

text \<open>
  A JavaScript \<open>Set\<close> keeps its elements in insertion order and its iterator also
  reaches the elements added while it runs. It is the list of its elements, and the
  iterator is a position in that list.
\<close>

definition Set_add :: "nat \<Rightarrow> nat list \<Rightarrow> nat list" where
  "Set_add v s = (if v \<in> set s then s else s @ [v])"

definition Set_new :: "nat list \<Rightarrow> nat list" where
  "Set_new vs = fold Set_add vs []"

definition Set_delete :: "nat \<Rightarrow> nat list \<Rightarrow> nat list" where
  "Set_delete v s = removeAll v s"

text \<open>
  The arrays \<open>visited\<close> and \<open>labels\<close> are read and written by index only, so they are
  functions of the index. An entry of \<open>visited\<close> is only tested for truth; an entry of
  \<open>labels\<close> is \<open>undefined\<close> (\<open>None\<close>), \<open>-1\<close> for noise, or a cluster id.
\<close>

type_synonym visited = "nat \<Rightarrow> bool"
type_synonym labels = "nat \<Rightarrow> int option"

definition relabel :: "labels \<Rightarrow> nat \<Rightarrow> int \<Rightarrow> labels" where
  "relabel labels n clusterIdx =
     (if labels n = None \<or> labels n = Some (- 1) then labels(n := Some clusterIdx)
      else labels)"

text \<open>
  The loop \<open>for (const n of seeds)\<close>: \<open>k\<close> is the position of the iterator. The loop
  stops when the iterator has passed the last element, also those added on the way.
  That it always stops is proved below, once the measure is defined.
\<close>

function expand ::
  "point list \<Rightarrow> jsnum \<Rightarrow> int \<Rightarrow> int \<Rightarrow> visited \<Rightarrow> labels \<Rightarrow> nat list \<Rightarrow> nat
     \<Rightarrow> error + (visited \<times> labels)" where
  "expand points eps minPts clusterIdx visited labels seeds k =
     (if k < length seeds then
        (let n = seeds ! k in
         if \<not> visited n then
           (case regionQuery points eps n of
              Inl e \<Rightarrow> Inl e
            | Inr nbs2 \<Rightarrow>
                expand points eps minPts clusterIdx (visited(n := True))
                  (relabel labels n clusterIdx)
                  (if minPts \<le> int (length nbs2) then fold Set_add nbs2 seeds else seeds)
                  (k + 1))
         else
           expand points eps minPts clusterIdx visited (relabel labels n clusterIdx)
             seeds (k + 1))
      else Inr (visited, labels))"
  by pat_completeness auto

text \<open>
  One round of the main loop \<open>for (let i=0; i<N; i++)\<close>, on the state
  \<open>(visited, labels, C)\<close>.
\<close>

definition visit ::
  "point list \<Rightarrow> jsnum \<Rightarrow> int \<Rightarrow> nat \<Rightarrow> visited \<times> labels \<times> int
     \<Rightarrow> error + (visited \<times> labels \<times> int)" where
  "visit points eps minPts i st =
     (case st of (visited, labels, C) \<Rightarrow>
        if visited i then Inr (visited, labels, C)
        else
          (case regionQuery points eps i of
             Inl e \<Rightarrow> Inl e
           | Inr neighbors \<Rightarrow>
               if int (length neighbors) < minPts
               then Inr (visited(i := True), labels(i := Some (- 1)), C)
               else
                 (let clusterIdx = C;
                      seeds = Set_delete i (Set_new neighbors)
                  in case expand points eps minPts clusterIdx (visited(i := True))
                            (labels(i := Some clusterIdx)) seeds 0 of
                       Inl e \<Rightarrow> Inl e
                     | Inr (visited', labels') \<Rightarrow> Inr (visited', labels', C + 1))))"

function main_loop ::
  "point list \<Rightarrow> jsnum \<Rightarrow> int \<Rightarrow> nat \<Rightarrow> visited \<times> labels \<times> int
     \<Rightarrow> error + (visited \<times> labels \<times> int)" where
  "main_loop points eps minPts i st =
     (if i < length points then
        (case visit points eps minPts i st of
           Inl e \<Rightarrow> Inl e
         | Inr st' \<Rightarrow> main_loop points eps minPts (i + 1) st')
      else Inr st)"
  by pat_completeness auto
termination
  by (relation "measure (\<lambda>(points, eps, minPts, i, st). length points - i)") auto

declare main_loop.simps [simp del]

text \<open>
  The labels become lists. \<open>clusters[lab]\<close> is \<open>undefined\<close> when \<open>lab\<close> is not an index
  of \<open>clusters\<close>, and its \<open>push\<close> throws then.
\<close>

definition push_label ::
  "point list \<Rightarrow> labels \<Rightarrow> nat \<Rightarrow> point list list \<Rightarrow> error + point list list" where
  "push_label points labels i clusters =
     (case labels i of
        None \<Rightarrow> Inr (clusters @ [[points ! i]])
      | Some lab \<Rightarrow>
          if lab = - 1 then Inr (clusters @ [[points ! i]])
          else if 0 \<le> lab \<and> nat lab < length clusters
          then Inr (clusters[nat lab := clusters ! nat lab @ [points ! i]])
          else Inl TypeError)"

function collect ::
  "point list \<Rightarrow> labels \<Rightarrow> nat \<Rightarrow> point list list \<Rightarrow> error + point list list" where
  "collect points labels i clusters =
     (if i < length points then
        (case push_label points labels i clusters of
           Inl e \<Rightarrow> Inl e
         | Inr clusters' \<Rightarrow> collect points labels (i + 1) clusters')
      else Inr clusters)"
  by pat_completeness auto
termination
  by (relation "measure (\<lambda>(points, labels, i, clusters). length points - i)") auto

declare collect.simps [simp del]

definition dbscan :: "point list \<Rightarrow> jsnum \<Rightarrow> int \<Rightarrow> error + point list list" where
  "dbscan points eps minPts =
     (case main_loop points eps minPts 0 (\<lambda>_. False, \<lambda>_. None, 0) of
        Inl e \<Rightarrow> Inl e
      | Inr (visited, labels, C) \<Rightarrow>
          (case collect points labels 0 (replicate (nat C) []) of
             Inl e \<Rightarrow> Inl e
           | Inr clusters \<Rightarrow> Inr (filter (\<lambda>arr. 0 < length arr) clusters)))"

section \<open>drawOverlay: the box and the label of a tile\<close>

text \<open>
  For each cluster \<open>drawOverlay\<close> folds its members into a box that starts at
  \<open>(Infinity, Infinity, -Infinity, -Infinity)\<close>, pads it by 10 and draws it with
  \<open>String(cluster.length)\<close> as its label. The model returns, for each cluster, the box
  and the number that are drawn; the rings around the dots and the colours are left out.
\<close>

record box =
  minx :: jsnum
  miny :: jsnum
  maxx :: jsnum
  maxy :: jsnum

definition grow :: "box \<Rightarrow> point \<Rightarrow> box" where
  "grow b p =
     \<lparr>minx = Math_min (minx b) (js_sub (x p) (r p)),
      miny = Math_min (miny b) (js_sub (y p) (r p)),
      maxx = Math_max (maxx b) (js_add (x p) (r p)),
      maxy = Math_max (maxy b) (js_add (y p) (r p))\<rparr>"

definition pad :: jsnum where
  "pad = Fin 10"

definition tileBox :: "point list \<Rightarrow> box" where
  "tileBox cluster =
     (let b = foldl grow \<lparr>minx = PInf, miny = PInf, maxx = NInf, maxy = NInf\<rparr> cluster
      in \<lparr>minx = js_sub (minx b) pad, miny = js_sub (miny b) pad,
          maxx = js_add (maxx b) pad, maxy = js_add (maxy b) pad\<rparr>)"

definition tileLabel :: "point list \<Rightarrow> nat" where
  "tileLabel cluster = length cluster"

definition drawOverlay :: "point list \<Rightarrow> point list list \<Rightarrow> (box \<times> nat) list" where
  "drawOverlay dots clusters = map (\<lambda>cluster. (tileBox cluster, tileLabel cluster)) clusters"

section \<open>analyzeFrame\<close>

text \<open>
  The result \<open>{ total, clusters }\<close> of one analysis (the elapsed time \<open>ms\<close> is left
  out), from the globals and the contours that OpenCV found in the frame. The call of
  \<open>drawOverlay\<close> in between only draws; it does not change the result.
\<close>

record result =
  total :: nat
  clusters :: "nat list"

definition auto_eps :: "globals \<Rightarrow> jsnum" where
  "auto_eps g =
     Math_round (js_mul (Fin (real (max (work_width g) (work_height g)))) (Fin (65 / 1000)))"

definition analyzeFrame :: "globals \<Rightarrow> candidate list \<Rightarrow> error + result" where
  "analyzeFrame g contours =
     (if \<not> cvReady g \<or> videoWidth g = 0 then Inr \<lparr>total = 0, clusters = []\<rparr>
      else
        (let dots = filterDots g contours [];
             eps = (case EPS g of None \<Rightarrow> auto_eps g | Some e \<Rightarrow> e)
         in case dbscan dots eps MIN_PTS of
              Inl e \<Rightarrow> Inl e
            | Inr tiles \<Rightarrow> Inr \<lparr>total = length dots, clusters = map length tiles\<rparr>))"

section \<open>Notions of the specification\<close>



text \<open>
  The tiles as the specification describes them, from the labels of the dots: the
  members of cluster \<open>c\<close> among the first \<open>n\<close> dots in input order, and one tile for
  each of the first \<open>n\<close> dots that has no cluster id.
\<close>

definition members :: "point list \<Rightarrow> labels \<Rightarrow> nat \<Rightarrow> nat \<Rightarrow> point list" where
  "members points labels n c =
     map (\<lambda>i. points ! i) (filter (\<lambda>i. labels i = Some (int c)) [0..<n])"

definition singles :: "point list \<Rightarrow> labels \<Rightarrow> nat \<Rightarrow> point list list" where
  "singles points labels n =
     map (\<lambda>i. [points ! i]) (filter (\<lambda>i. labels i = None \<or> labels i = Some (- 1)) [0..<n])"

definition grouped :: "point list \<Rightarrow> labels \<Rightarrow> int \<Rightarrow> nat \<Rightarrow> point list list" where
  "grouped points labels C n =
     map (members points labels n) [0..<nat C] @ singles points labels n"

text \<open>
  The same tiles as lists of indices into the input, to tell apart dots that are equal.
\<close>

definition member_ids :: "labels \<Rightarrow> nat \<Rightarrow> nat \<Rightarrow> nat list" where
  "member_ids labels n c = filter (\<lambda>i. labels i = Some (int c)) [0..<n]"

definition single_ids :: "labels \<Rightarrow> nat \<Rightarrow> nat list list" where
  "single_ids labels n =
     map (\<lambda>i. [i]) (filter (\<lambda>i. labels i = None \<or> labels i = Some (- 1)) [0..<n])"

definition grouped_ids :: "labels \<Rightarrow> int \<Rightarrow> nat \<Rightarrow> nat list list" where
  "grouped_ids labels C n = map (member_ids labels n) [0..<nat C] @ single_ids labels n"

text \<open>The dot that the filter pushes for a contour.\<close>

definition dot_of :: "candidate \<Rightarrow> point" where
  "dot_of c = \<lparr>x = center_x c, y = center_y c, r = radius c\<rparr>"

text \<open>
  The bounds of the specification on real numbers: \<open>minArea \<le> area \<le> maxArea\<close> and
  \<open>0.5 < width/height < 2.0\<close>. A contour is measured when its area, width and height
  are finite and its height is not zero, so that the quotient is a number.
\<close>

definition in_bounds :: "globals \<Rightarrow> candidate \<Rightarrow> bool" where
  "in_bounds g c =
     (num (MIN_AREA g) \<le> num (area c) \<and> num (area c) \<le> num (MAX_AREA g)
      \<and> 1 / 2 < num (width c) / num (height c) \<and> num (width c) / num (height c) < 2)"

definition measured :: "candidate \<Rightarrow> bool" where
  "measured c = (is_fin (area c) \<and> is_fin (width c) \<and> is_fin (height c) \<and> num (height c) \<noteq> 0)"


section \<open>Measure and invariant of the loops\<close>

text \<open>
  The iterator over \<open>seeds\<close> cannot run forever: every element of the set is an index
  below \<open>N\<close>, so each round either leaves the set alone and moves on, or fills in
  indices that were missing. The measure counts the indices still missing and the
  elements still ahead of the iterator.
\<close>

definition expand_measure :: "nat \<Rightarrow> nat list \<Rightarrow> nat \<Rightarrow> nat" where
  "expand_measure N seeds k = card ({0..<N} - set seeds) + (length seeds - k)"

text \<open>
  The state of the main loop over \<open>N\<close> dots is in order when \<open>C\<close> is not negative,
  every label is \<open>-1\<close> or a cluster id below \<open>C\<close>, the visited indices are those with a
  label, and every cluster id below \<open>C\<close> is the label of some dot. With the flag \<open>nf\<close>
  set, the label \<open>-1\<close> is excluded as well.
\<close>

definition state_ok :: "bool \<Rightarrow> nat \<Rightarrow> visited \<Rightarrow> labels \<Rightarrow> int \<Rightarrow> bool" where
  "state_ok nf N visited labels C =
     (0 \<le> C
      \<and> (\<forall>n c. labels n = Some c \<longrightarrow> (c = - 1 \<and> \<not> nf) \<or> (0 \<le> c \<and> c < C))
      \<and> (\<forall>n. visited n \<longrightarrow> labels n \<noteq> None)
      \<and> (\<forall>n. labels n \<noteq> None \<longrightarrow> visited n)
      \<and> (\<forall>c. 0 \<le> c \<and> c < C \<longrightarrow> (\<exists>n<N. labels n = Some c)))"

section \<open>The iterator over the set ends\<close>

lemma set_fold_Set_add: "set (fold Set_add vs s) = set s \<union> set vs"
  by (induction vs arbitrary: s) (auto simp: Set_add_def)

lemma length_fold_Set_add:
  "distinct vs \<Longrightarrow> length (fold Set_add vs s) = length s + card (set vs - set s)"
proof (induction vs arbitrary: s)
  case Nil
  then show ?case by simp
next
  case (Cons v vs)
  show ?case
  proof (cases "v \<in> set s")
    case True
    then have "set (v # vs) - set s = set vs - set s" by auto
    with Cons True show ?thesis by (simp add: Set_add_def)
  next
    case False
    have "set (v # vs) - set s = insert v (set vs - set (s @ [v]))"
      using False Cons.prems by auto
    moreover have "v \<notin> set vs - set (s @ [v])" by simp
    ultimately have "card (set (v # vs) - set s) = Suc (card (set vs - set (s @ [v])))"
      by (simp del: set_append)
    with Cons False show ?thesis by (simp add: Set_add_def)
  qed
qed

lemma regionQuery_bound:
  "regionQuery points eps i = Inr nbs \<Longrightarrow> set nbs \<subseteq> {0..<length points} \<and> distinct nbs"
  by (auto simp: regionQuery_def split: if_splits)

lemma expand_measure_add:
  assumes "set nbs \<subseteq> {0..<N}" "distinct nbs" "k < length seeds"
  shows "expand_measure N (fold Set_add nbs seeds) (k + 1) < expand_measure N seeds k"
proof -
  let ?new = "set nbs - set seeds"
  have len: "length (fold Set_add nbs seeds) = length seeds + card ?new"
    using assms(2) by (rule length_fold_Set_add)
  have "{0..<N} - set seeds = ({0..<N} - (set seeds \<union> set nbs)) \<union> ?new"
    using assms(1) by auto
  moreover have "({0..<N} - (set seeds \<union> set nbs)) \<inter> ?new = {}" by auto
  ultimately have "card ({0..<N} - set seeds)
      = card ({0..<N} - (set seeds \<union> set nbs)) + card ?new"
    by (simp add: card_Un_disjoint)
  with len assms(3) show ?thesis
    by (simp add: expand_measure_def set_fold_Set_add)
qed

termination expand
proof (relation "measure (\<lambda>(points, eps, minPts, clusterIdx, visited, labels, seeds, k).
          expand_measure (length points) seeds k)", goal_cases)
  case 1
  show ?case by simp
next
  case (2 points eps minPts clusterIdx visited labels seeds k n nbs2)
  then show ?case
    using expand_measure_add[of nbs2 "length points" k seeds]
      regionQuery_bound[of points eps n nbs2]
    by (auto simp: expand_measure_def)
next
  case 3
  then show ?case by (simp add: expand_measure_def)
qed

declare expand.simps [simp del]

section \<open>The clusterer never throws and keeps its labels in range\<close>

text \<open>
  Every index that reaches \<open>regionQuery\<close> is below \<open>N\<close>, so the expansion returns
  normally, and it keeps every property of \<open>visited\<close> and \<open>labels\<close> that one round keeps.
\<close>

lemma regionQuery_Inr:
  "i < length points \<Longrightarrow> \<exists>nbs. regionQuery points eps i = Inr nbs"
  by (simp add: regionQuery_def)

lemma expand_keeps:
  assumes "set seeds \<subseteq> {0..<length points}"
    and "Q visited labels"
    and "\<And>v l n. Q v l \<Longrightarrow> n < length points \<Longrightarrow> Q (v(n := True)) (relabel l n clusterIdx)"
  shows "\<exists>v' l'. expand points eps minPts clusterIdx visited labels seeds k = Inr (v', l')
           \<and> Q v' l'"
  using assms
proof (induction points eps minPts clusterIdx visited labels seeds k rule: expand.induct)
  case (1 points eps minPts clusterIdx visited labels seeds k)
  note step = "1.prems"(3)
  show ?case
  proof (cases "k < length seeds")
    case False
    then show ?thesis using "1.prems"(2) by (simp add: expand.simps)
  next
    case True
    define n where "n = seeds ! k"
    have n: "n < length points"
      using nth_mem[OF True] "1.prems"(1) by (auto simp: n_def)
    have Q': "Q (visited(n := True)) (relabel labels n clusterIdx)"
      using "1.prems"(2) n by (rule step)
    show ?thesis
    proof (cases "visited n")
      case True
      then have same: "visited(n := True) = visited" by (auto simp: fun_eq_iff)
      have "\<exists>v' l'. expand points eps minPts clusterIdx visited (relabel labels n clusterIdx)
                 seeds (k + 1) = Inr (v', l') \<and> Q v' l'"
        using "1.IH"(2)[OF \<open>k < length seeds\<close> n_def _ "1.prems"(1) _ step] True Q'
        unfolding same by blast
      then show ?thesis
        using \<open>k < length seeds\<close> True
        by (subst expand.simps) (simp add: n_def[symmetric])
    next
      case False
      obtain nbs2 where nbs2: "regionQuery points eps n = Inr nbs2"
        using regionQuery_Inr[OF n] by blast
      define seeds' where
        "seeds' = (if minPts \<le> int (length nbs2) then fold Set_add nbs2 seeds else seeds)"
      have sub: "set seeds' \<subseteq> {0..<length points}"
        using "1.prems"(1) regionQuery_bound[OF nbs2]
        by (auto simp: seeds'_def set_fold_Set_add)
      have "\<exists>v' l'. expand points eps minPts clusterIdx (visited(n := True))
                 (relabel labels n clusterIdx) seeds' (k + 1) = Inr (v', l') \<and> Q v' l'"
        by (rule "1.IH"(1)[OF \<open>k < length seeds\<close> n_def False nbs2, folded seeds'_def,
              OF sub Q' step])
      then show ?thesis
        using \<open>k < length seeds\<close> False nbs2
        by (subst expand.simps) (simp add: n_def[symmetric] seeds'_def)
    qed
  qed
qed

lemma set_Set_new: "set (Set_new vs) = set vs"
  by (simp add: Set_new_def set_fold_Set_add)

lemma state_ok_label:
  "state_ok nf N v l C \<Longrightarrow> l n = Some c \<Longrightarrow> (c = - 1 \<and> \<not> nf) \<or> (0 \<le> c \<and> c < C)"
  by (simp add: state_ok_def)

lemma state_ok_visited: "state_ok nf N v l C \<Longrightarrow> v n \<Longrightarrow> l n \<noteq> None"
  by (simp add: state_ok_def)

lemma state_ok_labelled: "state_ok nf N v l C \<Longrightarrow> l n \<noteq> None \<Longrightarrow> v n"
  by (simp add: state_ok_def del: not_None_eq)

lemma state_ok_unvisited: "state_ok nf N v l C \<Longrightarrow> \<not> v n \<Longrightarrow> l n = None"
  using state_ok_labelled by blast

lemma state_ok_member:
  "state_ok nf N v l C \<Longrightarrow> 0 \<le> c \<Longrightarrow> c < C \<Longrightarrow> \<exists>n<N. l n = Some c"
  by (simp add: state_ok_def)

lemma state_ok_relabel:
  assumes "state_ok nf N v l (C + 1)" "0 \<le> C"
  shows "state_ok nf N (v(n := True)) (relabel l n C) (C + 1)"
  unfolding state_ok_def
proof (intro conjI allI impI)
  show "0 \<le> C + 1" using assms(2) by simp
next
  fix m c assume "relabel l n C m = Some c"
  then have "l m = Some c \<or> c = C"
    by (auto simp: relabel_def split: if_splits)
  moreover have "l m = Some c \<Longrightarrow> c = - 1 \<and> \<not> nf \<or> 0 \<le> c \<and> c < C + 1"
    using state_ok_label[OF assms(1)] by blast
  ultimately show "c = - 1 \<and> \<not> nf \<or> 0 \<le> c \<and> c < C + 1"
    using assms(2) by auto
next
  fix m assume "(v(n := True)) m"
  then have "m = n \<or> l m \<noteq> None"
    using state_ok_visited[OF assms(1)] by (auto split: if_splits)
  then show "relabel l n C m \<noteq> None"
    by (auto simp: relabel_def)
next
  fix m assume "relabel l n C m \<noteq> None"
  then have "m = n \<or> l m \<noteq> None"
    by (auto simp: relabel_def split: if_splits)
  then show "(v(n := True)) m"
    using state_ok_labelled[OF assms(1), of m] by auto
next
  fix c assume "0 \<le> c \<and> c < C + 1"
  then obtain m where m: "m < N" "l m = Some c"
    using state_ok_member[OF assms(1)] by blast
  then have "relabel l n C m = Some c"
    using \<open>0 \<le> c \<and> c < C + 1\<close> by (auto simp: relabel_def)
  then show "\<exists>m<N. relabel l n C m = Some c" using m(1) by blast
qed

lemma state_ok_seed:
  assumes "state_ok nf N v l C" "\<not> v i" "i < N"
  shows "state_ok nf N (v(i := True)) (l(i := Some C)) (C + 1)"
  unfolding state_ok_def
proof (intro conjI allI impI)
  show "0 \<le> C + 1" using assms(1) by (simp add: state_ok_def)
next
  fix n c assume a: "(l(i := Some C)) n = Some c"
  show "c = - 1 \<and> \<not> nf \<or> 0 \<le> c \<and> c < C + 1"
  proof (cases "n = i")
    case True
    then show ?thesis using a assms(1) by (simp add: state_ok_def)
  next
    case False
    then have "l n = Some c" using a by simp
    then have "c = - 1 \<and> \<not> nf \<or> 0 \<le> c \<and> c < C"
      using state_ok_label[OF assms(1)] by blast
    then show ?thesis by auto
  qed
next
  fix n assume "(v(i := True)) n"
  then show "(l(i := Some C)) n \<noteq> None"
    using state_ok_visited[OF assms(1), of n] by (auto split: if_splits)
next
  fix n assume "(l(i := Some C)) n \<noteq> None"
  then show "(v(i := True)) n"
    using state_ok_labelled[OF assms(1), of n] by (auto split: if_splits)
next
  fix c assume c: "0 \<le> c \<and> c < C + 1"
  have li: "l i = None" using assms(1,2) by (rule state_ok_unvisited)
  show "\<exists>n<N. (l(i := Some C)) n = Some c"
  proof (cases "c = C")
    case True
    then show ?thesis using assms(3) by auto
  next
    case False
    then obtain n where "n < N" "l n = Some c"
      using c state_ok_member[OF assms(1), of c] by auto
    then show ?thesis using li by (intro exI[of _ n]) auto
  qed
qed

lemma state_ok_noise:
  assumes "state_ok False N v l C" "\<not> v i"
  shows "state_ok False N (v(i := True)) (l(i := Some (- 1))) C"
  unfolding state_ok_def
proof (intro conjI allI impI)
  show "0 \<le> C" using assms(1) by (simp add: state_ok_def)
next
  fix n c assume a: "(l(i := Some (- 1))) n = Some c"
  show "c = - 1 \<and> \<not> False \<or> 0 \<le> c \<and> c < C"
  proof (cases "n = i")
    case True
    then show ?thesis using a by simp
  next
    case False
    then have "l n = Some c" using a by simp
    then show ?thesis using state_ok_label[OF assms(1)] by blast
  qed
next
  fix n assume "(v(i := True)) n"
  then show "(l(i := Some (- 1))) n \<noteq> None"
    using state_ok_visited[OF assms(1), of n] by (auto split: if_splits)
next
  fix n assume "(l(i := Some (- 1))) n \<noteq> None"
  then show "(v(i := True)) n"
    using state_ok_labelled[OF assms(1), of n] by (auto split: if_splits)
next
  fix c assume c: "0 \<le> c \<and> c < C"
  have li: "l i = None" using assms by (rule state_ok_unvisited)
  obtain n where "n < N" "l n = Some c"
    using c state_ok_member[OF assms(1), of c] by auto
  then show "\<exists>n<N. (l(i := Some (- 1))) n = Some c"
    using li by (intro exI[of _ n]) auto
qed

lemma visit_ok:
  assumes i: "i < length points"
    and I: "state_ok nf (length points) visited labels C"
    and nf: "nf \<Longrightarrow> \<forall>nbs. regionQuery points eps i = Inr nbs \<longrightarrow> minPts \<le> int (length nbs)"
  shows "\<exists>v' l' C'. visit points eps minPts i (visited, labels, C) = Inr (v', l', C')
           \<and> state_ok nf (length points) v' l' C' \<and> v' i \<and> (\<forall>m. visited m \<longrightarrow> v' m)"
proof (cases "visited i")
  case True
  then show ?thesis using I by (simp add: visit_def)
next
  case False
  obtain neighbors where nbs: "regionQuery points eps i = Inr neighbors"
    using regionQuery_Inr[OF i] by blast
  show ?thesis
  proof (cases "int (length neighbors) < minPts")
    case True
    then have "\<not> nf" using nf nbs by auto
    then have "state_ok nf (length points) (visited(i := True)) (labels(i := Some (- 1))) C"
      using I False state_ok_noise by auto
    then show ?thesis using False nbs True by (simp add: visit_def)
  next
    case notnoise: False
    define seeds where "seeds = Set_delete i (Set_new neighbors)"
    define Q where "Q = (\<lambda>v l. state_ok nf (length points) v l (C + 1) \<and> v i
                           \<and> (\<forall>m. visited m \<longrightarrow> v m))"
    have sub: "set seeds \<subseteq> {0..<length points}"
      using regionQuery_bound[OF nbs] by (auto simp: seeds_def Set_delete_def set_Set_new)
    have C0: "0 \<le> C" using I by (simp add: state_ok_def)
    have "state_ok nf (length points) (visited(i := True)) (labels(i := Some C)) (C + 1)"
      using I False i by (rule state_ok_seed)
    then have init: "Q (visited(i := True)) (labels(i := Some C))"
      by (simp add: Q_def)
    have step: "\<And>v l n. Q v l \<Longrightarrow> n < length points \<Longrightarrow> Q (v(n := True)) (relabel l n C)"
      unfolding Q_def using state_ok_relabel[OF _ C0] by auto
    obtain v' l' where
      ex: "expand points eps minPts C (visited(i := True)) (labels(i := Some C)) seeds 0
             = Inr (v', l')" and Q': "Q v' l'"
      using expand_keeps[of seeds points Q, OF sub init step] by blast
    show ?thesis
      using False nbs notnoise ex Q'
      by (simp add: visit_def seeds_def[symmetric] Q_def)
  qed
qed

lemma main_loop_ok:
  assumes "state_ok nf (length points) visited labels C"
    and "nf \<Longrightarrow> \<forall>j nbs. j < length points \<longrightarrow> regionQuery points eps j = Inr nbs
                   \<longrightarrow> minPts \<le> int (length nbs)"
    and "\<forall>j<i. visited j"
  shows "\<exists>v' l' C'. main_loop points eps minPts i (visited, labels, C) = Inr (v', l', C')
           \<and> state_ok nf (length points) v' l' C' \<and> (\<forall>j<length points. v' j)"
  using assms
proof (induction "length points - i" arbitrary: i visited labels C)
  case 0
  then show ?case by (subst main_loop.simps) auto
next
  case (Suc d)
  then have i: "i < length points" by simp
  have nfi: "nf \<Longrightarrow> \<forall>nbs. regionQuery points eps i = Inr nbs \<longrightarrow> minPts \<le> int (length nbs)"
    using Suc.prems(2) i by blast
  obtain v1 l1 C1 where
    v: "visit points eps minPts i (visited, labels, C) = Inr (v1, l1, C1)"
    and I1: "state_ok nf (length points) v1 l1 C1" and vi: "v1 i" and mono: "\<forall>m. visited m \<longrightarrow> v1 m"
    using visit_ok[OF i Suc.prems(1) nfi] by blast
  have d: "d = length points - (i + 1)" using Suc.hyps(2) by simp
  have pre: "\<forall>j<i + 1. v1 j"
    using Suc.prems(3) vi mono by (auto simp: less_Suc_eq)
  obtain v' l' C' where
    "main_loop points eps minPts (i + 1) (v1, l1, C1) = Inr (v', l', C')"
    "state_ok nf (length points) v' l' C'" "\<forall>j<length points. v' j"
    using Suc.hyps(1)[OF d I1 Suc.prems(2) pre] by blast
  then show ?case
    using i v by (subst main_loop.simps) simp
qed

lemma mset_concat_update:
  assumes "k < length cl"
  shows "mset (concat (cl[k := cl ! k @ [p]])) = mset (concat cl) + {#p#}"
proof -
  have "cl[k := cl ! k @ [p]] = take k cl @ (cl ! k @ [p]) # drop (Suc k) cl"
    using assms by (rule upd_conv_take_nth_drop)
  moreover have "cl = take k cl @ cl ! k # drop (Suc k) cl"
    using assms by (rule id_take_nth_drop)
  ultimately have "mset (concat (cl[k := cl ! k @ [p]]))
      = mset (concat (take k cl @ (cl ! k @ [p]) # drop (Suc k) cl))"
    and "mset (concat cl) = mset (concat (take k cl @ cl ! k # drop (Suc k) cl))"
    by simp_all
  then show ?thesis by simp
qed

lemma concat_replicate_Nil: "concat (replicate n []) = []"
  by (induction n) simp_all

lemma push_label_mset:
  assumes "\<forall>c. labels i = Some c \<longrightarrow> c = - 1 \<or> (0 \<le> c \<and> nat c < length cl)"
  shows "\<exists>cl'. push_label points labels i cl = Inr cl'
           \<and> mset (concat cl') = mset (concat cl) + {#points ! i#}
           \<and> length cl \<le> length cl'"
proof (cases "labels i")
  case None
  then show ?thesis by (simp add: push_label_def)
next
  case (Some lab)
  show ?thesis
  proof (cases "lab = - 1")
    case True
    then show ?thesis using Some by (simp add: push_label_def)
  next
    case False
    then have "0 \<le> lab \<and> nat lab < length cl" using assms Some by auto
    then show ?thesis
      using Some False by (simp add: push_label_def mset_concat_update)
  qed
qed

lemma collect_mset:
  assumes "\<forall>j c. labels j = Some c \<longrightarrow> c = - 1 \<or> (0 \<le> c \<and> nat c < length cl)"
  shows "\<exists>cl'. collect points labels i cl = Inr cl'
           \<and> mset (concat cl') = mset (concat cl) + mset (drop i points)"
  using assms
proof (induction "length points - i" arbitrary: i cl)
  case 0
  then show ?case by (subst collect.simps) auto
next
  case (Suc d)
  then have i: "i < length points" by simp
  obtain cl1 where p: "push_label points labels i cl = Inr cl1"
    and m: "mset (concat cl1) = mset (concat cl) + {#points ! i#}"
    and len: "length cl \<le> length cl1"
    using push_label_mset[of labels i cl points] Suc.prems by blast
  have ok: "\<forall>j c. labels j = Some c \<longrightarrow> c = - 1 \<or> (0 \<le> c \<and> nat c < length cl1)"
    using Suc.prems len by (meson less_le_trans)
  have d: "d = length points - (i + 1)" using Suc.hyps(2) by simp
  obtain cl' where c: "collect points labels (i + 1) cl1 = Inr cl'"
    and m': "mset (concat cl') = mset (concat cl1) + mset (drop (i + 1) points)"
    using Suc.hyps(1)[OF d ok] by blast
  have "drop i points = points ! i # drop (i + 1) points"
    using i by (simp add: Cons_nth_drop_Suc)
  then have "mset (concat cl') = mset (concat cl) + mset (drop i points)"
    using m m' by simp
  then show ?case
    using i p c by (subst collect.simps) simp
qed

lemma concat_filter_nonempty: "concat (filter (\<lambda>arr. arr \<noteq> []) cl) = concat cl"
  by (induction cl) auto

lemma dbscan_partition:
  "\<exists>tiles. dbscan points eps minPts = Inr tiles \<and> mset (concat tiles) = mset points"
proof -
  have I0: "state_ok False (length points) (\<lambda>_. False) (\<lambda>_. None) 0" by (simp add: state_ok_def)
  obtain v l C where ml: "main_loop points eps minPts 0 (\<lambda>_. False, \<lambda>_. None, 0) = Inr (v, l, C)"
    and I: "state_ok False (length points) v l C"
    using main_loop_ok[of False points "\<lambda>_. False" "\<lambda>_. None" 0 eps minPts 0, OF I0] by auto
  have ok: "\<forall>j c. l j = Some c \<longrightarrow> c = - 1 \<or> (0 \<le> c \<and> nat c < length (replicate (nat C) ([]::point list)))"
  proof (intro allI impI)
    fix j c assume "l j = Some c"
    then have "c = - 1 \<or> (0 \<le> c \<and> c < C)"
      using state_ok_label[OF I] by blast
    then show "c = - 1 \<or> (0 \<le> c \<and> nat c < length (replicate (nat C) ([]::point list)))"
      by auto
  qed
  obtain cl where c: "collect points l 0 (replicate (nat C) []) = Inr cl"
    and m: "mset (concat cl) = mset (concat (replicate (nat C) ([]::point list))) + mset (drop 0 points)"
    using collect_mset[OF ok, of points 0] by blast
  have "mset (concat cl) = mset points" using m by (simp add: concat_replicate_Nil)
  then show ?thesis
    using ml c by (simp add: dbscan_def concat_filter_nonempty)
qed

section \<open>The lists that collect builds\<close>

lemma members_Suc:
  "members points labels (Suc i) c =
     (if labels i = Some (int c) then members points labels i c @ [points ! i]
      else members points labels i c)"
  by (simp add: members_def)

lemma singles_Suc:
  "singles points labels (Suc i) =
     (if labels i = None \<or> labels i = Some (- 1) then singles points labels i @ [[points ! i]]
      else singles points labels i)"
  by (simp add: singles_def)

lemma push_label_grouped:
  assumes "\<forall>c. labels i = Some c \<longrightarrow> c = - 1 \<or> (0 \<le> c \<and> c < C)"
  shows "push_label points labels i (grouped points labels C i)
           = Inr (grouped points labels C (Suc i))"
proof (cases "labels i = None \<or> labels i = Some (- 1)")
  case True
  then have "\<And>c. labels i \<noteq> Some (int c)" by auto
  then have "\<And>c. members points labels (Suc i) c = members points labels i c"
    by (simp add: members_Suc)
  then have "grouped points labels C (Suc i) = grouped points labels C i @ [[points ! i]]"
    using True by (simp add: grouped_def singles_Suc)
  then show ?thesis
    using True by (auto simp: push_label_def)
next
  case False
  then obtain lab where lab: "labels i = Some lab" "lab \<noteq> - 1" by auto
  then have range: "0 \<le> lab" "lab < C" using assms by auto
  define k where "k = nat lab"
  have k: "k < nat C" "int k = lab" using range by (simp_all add: k_def)
  let ?A = "map (members points labels i) [0..<nat C]"
  let ?A' = "map (members points labels (Suc i)) [0..<nat C]"
  have upd: "?A[k := ?A ! k @ [points ! i]] = ?A'"
  proof (rule nth_equalityI)
    show "length (?A[k := ?A ! k @ [points ! i]]) = length ?A'" by simp
  next
    fix c assume "c < length (?A[k := ?A ! k @ [points ! i]])"
    then have c: "c < nat C" by simp
    show "?A[k := ?A ! k @ [points ! i]] ! c = ?A' ! c"
    proof (cases "c = k")
      case True
      then show ?thesis using k lab by (simp add: members_Suc)
    next
      case False
      then have "labels i \<noteq> Some (int c)" using lab k by auto
      then show ?thesis using False c k by (simp add: members_Suc)
    qed
  qed
  have s: "singles points labels (Suc i) = singles points labels i"
    using False by (simp add: singles_Suc)
  have "(grouped points labels C i)[k := grouped points labels C i ! k @ [points ! i]]
          = grouped points labels C (Suc i)"
    using k(1) upd s by (simp add: grouped_def list_update_append1 nth_append)
  moreover have "k < length (grouped points labels C i)"
    using k(1) by (simp add: grouped_def)
  ultimately show ?thesis
    using lab range by (simp add: push_label_def k_def)
qed

lemma collect_grouped:
  assumes "\<forall>j c. labels j = Some c \<longrightarrow> c = - 1 \<or> (0 \<le> c \<and> c < C)"
    and "i \<le> length points"
  shows "collect points labels i (grouped points labels C i)
           = Inr (grouped points labels C (length points))"
  using assms(2)
proof (induction "length points - i" arbitrary: i)
  case 0
  then show ?case by (subst collect.simps) simp
next
  case (Suc d)
  then have i: "i < length points" by simp
  have p: "push_label points labels i (grouped points labels C i)
             = Inr (grouped points labels C (i + 1))"
    using push_label_grouped[of labels i C points] assms(1) by simp
  have "collect points labels (i + 1) (grouped points labels C (i + 1))
          = Inr (grouped points labels C (length points))"
    using Suc.hyps(1)[of "i + 1"] Suc.hyps(2) i by simp
  then show ?case
    using i p by (subst collect.simps) simp
qed

lemma grouped_0: "grouped points labels C 0 = replicate (nat C) []"
proof -
  have "members points labels 0 = (\<lambda>_. [])"
    by (simp add: members_def fun_eq_iff)
  then show ?thesis
    by (simp add: grouped_def singles_def map_replicate_const)
qed

lemma members_nonempty:
  assumes "state_ok nf (length points) v l C" "c < nat C"
  shows "members points l (length points) c \<noteq> []"
proof -
  have "int c < C" using assms(2) by simp
  then obtain n where "n < length points" "l n = Some (int c)"
    using state_ok_member[OF assms(1), of "int c"] by auto
  then have "n \<in> set (filter (\<lambda>i. l i = Some (int c)) [0..<length points])" by simp
  then have "filter (\<lambda>i. l i = Some (int c)) [0..<length points] \<noteq> []"
    by (metis empty_iff empty_set)
  then show ?thesis by (simp add: members_def)
qed

lemma dbscan_grouped:
  "\<exists>visited labels C.
     main_loop points eps minPts 0 (\<lambda>_. False, \<lambda>_. None, 0) = Inr (visited, labels, C)
     \<and> dbscan points eps minPts
         = Inr (map (members points labels (length points)) [0..<nat C]
                @ singles points labels (length points))
     \<and> [] \<notin> set (map (members points labels (length points)) [0..<nat C]
                    @ singles points labels (length points))"
proof -
  have I0: "state_ok False (length points) (\<lambda>_. False) (\<lambda>_. None) 0" by (simp add: state_ok_def)
  obtain v l C where ml: "main_loop points eps minPts 0 (\<lambda>_. False, \<lambda>_. None, 0) = Inr (v, l, C)"
    and I: "state_ok False (length points) v l C"
    using main_loop_ok[of False points "\<lambda>_. False" "\<lambda>_. None" 0 eps minPts 0, OF I0] by auto
  have ok: "\<forall>j c. l j = Some c \<longrightarrow> c = - 1 \<or> (0 \<le> c \<and> c < C)"
    using state_ok_label[OF I] by blast
  let ?tiles = "map (members points l (length points)) [0..<nat C]
                  @ singles points l (length points)"
  have c: "collect points l 0 (replicate (nat C) []) = Inr ?tiles"
    using collect_grouped[OF ok, of 0 points] unfolding grouped_0
    by (simp add: grouped_def)
  have ne: "[] \<notin> set ?tiles"
    using members_nonempty[OF I] by (auto simp: singles_def) metis
  then have "filter (\<lambda>arr. 0 < length arr) ?tiles = ?tiles"
    by (intro filter_True) auto
  then have "dbscan points eps minPts = Inr ?tiles"
    using ml c by (simp add: dbscan_def)
  then show ?thesis using ml ne by blast
qed

section \<open>The tiles partition the dots\<close>

lemma grouped_by_ids:
  "map (members points labels n) [0..<nat C] @ singles points labels n
     = map (map (\<lambda>i. points ! i)) (grouped_ids labels C n)"
  by (simp add: grouped_ids_def members_def member_ids_def singles_def single_ids_def comp_def)

lemma map_upt_update:
  assumes "k < m" "f' k = f k @ [v]" "\<And>c. c < m \<Longrightarrow> c \<noteq> k \<Longrightarrow> f' c = f c"
  shows "map f' [0..<m] = (map f [0..<m])[k := map f [0..<m] ! k @ [v]]"
proof (rule nth_equalityI)
  show "length (map f' [0..<m]) = length ((map f [0..<m])[k := map f [0..<m] ! k @ [v]])"
    by simp
next
  fix c assume "c < length (map f' [0..<m])"
  then have c: "c < m" by simp
  show "map f' [0..<m] ! c = (map f [0..<m])[k := map f [0..<m] ! k @ [v]] ! c"
    using c assms by (cases "c = k") simp_all
qed

lemma mset_grouped_ids_Suc:
  assumes "\<forall>c. labels n = Some c \<longrightarrow> c = - 1 \<or> (0 \<le> c \<and> c < C)"
  shows "mset (concat (grouped_ids labels C (Suc n)))
           = mset (concat (grouped_ids labels C n)) + {#n#}"
proof (cases "labels n = None \<or> labels n = Some (- 1)")
  case True
  then have "\<And>c. labels n \<noteq> Some (int c)" by auto
  then have "member_ids labels (Suc n) = member_ids labels n"
    by (simp add: member_ids_def fun_eq_iff)
  moreover have "single_ids labels (Suc n) = single_ids labels n @ [[n]]"
    using True by (simp add: single_ids_def)
  ultimately show ?thesis by (simp add: grouped_ids_def)
next
  case False
  then obtain lab where lab: "labels n = Some lab" "lab \<noteq> - 1" by auto
  then have range: "0 \<le> lab" "lab < C" using assms by auto
  define k where "k = nat lab"
  have k: "k < nat C" "int k = lab" using range by (simp_all add: k_def)
  let ?A = "map (member_ids labels n) [0..<nat C]"
  have "map (member_ids labels (Suc n)) [0..<nat C] = ?A[k := ?A ! k @ [n]]"
  proof (rule map_upt_update[OF k(1)])
    show "member_ids labels (Suc n) k = member_ids labels n k @ [n]"
      using lab k by (simp add: member_ids_def)
  next
    fix c assume "c < nat C" "c \<noteq> k"
    then have "labels n \<noteq> Some (int c)" using lab k by auto
    then show "member_ids labels (Suc n) c = member_ids labels n c"
      by (simp add: member_ids_def)
  qed
  moreover have "mset (concat (?A[k := ?A ! k @ [n]])) = mset (concat ?A) + {#n#}"
    using k(1) by (intro mset_concat_update) simp
  moreover have "single_ids labels (Suc n) = single_ids labels n"
    using False by (simp add: single_ids_def)
  ultimately show ?thesis by (simp add: grouped_ids_def)
qed

lemma mset_grouped_ids:
  assumes "\<forall>j c. labels j = Some c \<longrightarrow> c = - 1 \<or> (0 \<le> c \<and> c < C)"
  shows "mset (concat (grouped_ids labels C n)) = mset [0..<n]"
proof (induction n)
  case 0
  have "member_ids labels 0 = (\<lambda>_. [])" by (simp add: member_ids_def fun_eq_iff)
  then show ?case
    by (simp add: grouped_ids_def single_ids_def map_replicate_const concat_replicate_Nil)
next
  case (Suc n)
  then show ?case
    using mset_grouped_ids_Suc[of labels n C] assms by simp
qed

lemma dbscan_partition_ids:
  "\<exists>tiles ids. dbscan points eps minPts = Inr tiles
     \<and> mset (concat tiles) = mset points
     \<and> tiles = map (map (\<lambda>i. points ! i)) ids
     \<and> mset (concat ids) = mset [0..<length points]"
proof -
  have I0: "state_ok False (length points) (\<lambda>_. False) (\<lambda>_. None) 0" by (simp add: state_ok_def)
  obtain v l C where ml: "main_loop points eps minPts 0 (\<lambda>_. False, \<lambda>_. None, 0) = Inr (v, l, C)"
    and I: "state_ok False (length points) v l C"
    using main_loop_ok[of False points "\<lambda>_. False" "\<lambda>_. None" 0 eps minPts 0, OF I0] by auto
  have ok: "\<forall>j c. l j = Some c \<longrightarrow> c = - 1 \<or> (0 \<le> c \<and> c < C)"
    using state_ok_label[OF I] by blast
  obtain v' l' C' where ml': "main_loop points eps minPts 0 (\<lambda>_. False, \<lambda>_. None, 0) = Inr (v', l', C')"
    and db: "dbscan points eps minPts
         = Inr (map (members points l' (length points)) [0..<nat C']
                @ singles points l' (length points))"
    using dbscan_grouped[of points eps minPts] by blast
  have same: "l' = l" "C' = C" using ml ml' by simp_all
  let ?ids = "grouped_ids l C (length points)"
  have t: "dbscan points eps minPts = Inr (map (map (\<lambda>i. points ! i)) ?ids)"
    using db unfolding same grouped_by_ids .
  have m: "mset (concat ?ids) = mset [0..<length points]"
    using ok by (rule mset_grouped_ids)
  obtain tiles' where "dbscan points eps minPts = Inr tiles'" "mset (concat tiles') = mset points"
    using dbscan_partition[of points eps minPts] by blast
  then have "mset (concat (map (map (\<lambda>i. points ! i)) ?ids)) = mset points" using t by simp
  then show ?thesis using t m by blast
qed

text \<open>
  Claim C1. For every list of dots, every \<open>eps\<close> and every \<open>minPts\<close>, \<open>dbscan\<close> returns
  normally, and the tiles it returns hold the dots of the input, each as often as the
  input has it. More precisely the tiles are the dots at lists of indices in which
  every index of the input occurs once in all: no dot is dropped and none is put into
  two tiles or twice into one.
\<close>

theorem C1_tiles_partition_input:
  "\<exists>tiles ids. dbscan points eps minPts = Inr tiles
     \<and> mset (concat tiles) = mset points
     \<and> tiles = map (map (\<lambda>i. points ! i)) ids
     \<and> mset (concat ids) = mset [0..<length points]"
  by (rule dbscan_partition_ids)

section \<open>The order of the tiles\<close>

text \<open>
  Claim C6. With the labels and the counter \<open>C\<close> that the main loop leaves, the result
  of \<open>dbscan\<close> is: for each cluster id from \<open>0\<close> to \<open>C - 1\<close>, in this order, the dots
  with that label in input order; then one tile for each dot that is \<open>undefined\<close> or
  \<open>-1\<close>, in input order. No tile of the result is empty.
\<close>

theorem C6_tile_order:
  "\<exists>visited labels C tiles.
     main_loop points eps minPts 0 (\<lambda>_. False, \<lambda>_. None, 0) = Inr (visited, labels, C)
     \<and> dbscan points eps minPts = Inr tiles
     \<and> tiles = map (members points labels (length points)) [0..<nat C]
               @ singles points labels (length points)
     \<and> [] \<notin> set tiles"
  using dbscan_grouped[of points eps minPts] by blast

text \<open>
  An example with \<open>minPts = 2\<close>: the first and the third dot have no neighbour and come
  last, in their input order, after the cluster of the other two.
\<close>

lemma noise_example:
  "dbscan [\<lparr>x = Fin 100, y = Fin 100, r = Fin 5\<rparr>, \<lparr>x = Fin 0, y = Fin 0, r = Fin 5\<rparr>,
           \<lparr>x = Fin 200, y = Fin 0, r = Fin 5\<rparr>, \<lparr>x = Fin 5, y = Fin 0, r = Fin 5\<rparr>]
     (Fin 10) 2
   = Inr [[\<lparr>x = Fin 0, y = Fin 0, r = Fin 5\<rparr>, \<lparr>x = Fin 5, y = Fin 0, r = Fin 5\<rparr>],
          [\<lparr>x = Fin 100, y = Fin 100, r = Fin 5\<rparr>], [\<lparr>x = Fin 200, y = Fin 0, r = Fin 5\<rparr>]]"
  by code_simp

section \<open>Scenario A\<close>

text \<open>
  Claim C2. The dots \<open>(0,0)\<close>, \<open>(5,0)\<close> and \<open>(100,100)\<close>, each of radius 5, with
  \<open>eps = 10\<close> and \<open>minPts = 1\<close>: \<open>dbscan\<close> returns two tiles, the first with \<open>(0,0)\<close> and
  \<open>(5,0)\<close>, the second with \<open>(100,100)\<close>; and \<open>analyzeFrame\<close>, on three contours with
  these circles that pass the filter, reports the counts \<open>[2, 1]\<close> and the total 3.
\<close>

theorem C2_scenario_A:
  "dbscan [\<lparr>x = Fin 0, y = Fin 0, r = Fin 5\<rparr>, \<lparr>x = Fin 5, y = Fin 0, r = Fin 5\<rparr>,
           \<lparr>x = Fin 100, y = Fin 100, r = Fin 5\<rparr>] (Fin 10) 1
     = Inr [[\<lparr>x = Fin 0, y = Fin 0, r = Fin 5\<rparr>, \<lparr>x = Fin 5, y = Fin 0, r = Fin 5\<rparr>],
            [\<lparr>x = Fin 100, y = Fin 100, r = Fin 5\<rparr>]]
   \<and> analyzeFrame
        \<lparr>MIN_AREA = Fin 30, MAX_AREA = Fin 5000, EPS = Some (Fin 10), cvReady = True,
         videoWidth = 1280, work_width = 1280, work_height = 720\<rparr>
        [\<lparr>area = Fin 78, width = Fin 10, height = Fin 10,
          center_x = Fin 0, center_y = Fin 0, radius = Fin 5\<rparr>,
         \<lparr>area = Fin 78, width = Fin 10, height = Fin 10,
          center_x = Fin 5, center_y = Fin 0, radius = Fin 5\<rparr>,
         \<lparr>area = Fin 78, width = Fin 10, height = Fin 10,
          center_x = Fin 100, center_y = Fin 100, radius = Fin 5\<rparr>]
     = Inr \<lparr>total = 3, clusters = [2, 1]\<rparr>"
  by code_simp

text \<open>The counts of the tiles and the number of dots in them, from the result above.\<close>

theorem C2_scenario_A_witness:
  "\<exists>tiles. dbscan [\<lparr>x = Fin 0, y = Fin 0, r = Fin 5\<rparr>, \<lparr>x = Fin 5, y = Fin 0, r = Fin 5\<rparr>,
                   \<lparr>x = Fin 100, y = Fin 100, r = Fin 5\<rparr>] (Fin 10) 1 = Inr tiles
      \<and> map length tiles = [2, 1] \<and> length (concat tiles) = 3"
  using C2_scenario_A by simp

section \<open>The neighbour test\<close>

lemma is_fin_num: "is_fin a \<Longrightarrow> a = Fin (num a)"
  by (cases a) simp_all





text \<open>
  The radius must not be negative for this: the test compares with \<open>eps*eps\<close>, so at
  \<open>eps = -10\<close> a dot at distance \<open>5 = eps + 15\<close> is a neighbour.
\<close>

lemma negative_eps_neighbours:
  "regionQuery [\<lparr>x = Fin 0, y = Fin 0, r = Fin 5\<rparr>, \<lparr>x = Fin 3, y = Fin 4, r = Fin 5\<rparr>]
     (Fin (- 10)) 0 = Inr [0, 1]"
  by code_simp

section \<open>The filter\<close>

lemma filterDots_acc:
  "filterDots g cs dots = dots @ map dot_of (filter (accepts g) cs)"
  by (induction cs arbitrary: dots) (simp_all add: accepts_def dot_of_def Let_def)

lemma filterDots_filter:
  "filterDots g cs [] = map dot_of (filter (accepts g) cs)"
  by (simp add: filterDots_acc)

lemma accepts_in_bounds:
  assumes "is_fin (MIN_AREA g)" "is_fin (MAX_AREA g)" "measured c"
  shows "accepts g c \<longleftrightarrow> in_bounds g c"
proof -
  obtain lo hi a w h where v: "MIN_AREA g = Fin lo" "MAX_AREA g = Fin hi" "area c = Fin a"
      "width c = Fin w" "height c = Fin h"
    using assms is_fin_num unfolding measured_def by metis
  then have "h \<noteq> 0" using assms(3) by (simp add: measured_def)
  then show ?thesis
    using v by (auto simp: accepts_def in_bounds_def js_ge_def js_gt_def)
qed

text \<open>
  Claim C4. With finite bounds, the filter emits the dots of exactly those measured
  contours with \<open>minArea \<le> area \<le> maxArea\<close> and \<open>0.5 < width/height < 2.0\<close>, in their
  order: the bounds on the area are inclusive, those on the ratio strict.
\<close>

theorem C4_filter_bounds:
  assumes "is_fin (MIN_AREA g)" "is_fin (MAX_AREA g)" "\<forall>c\<in>set cs. measured c"
  shows "filterDots g cs [] = map dot_of (filter (in_bounds g) cs)"
proof -
  have "filter (accepts g) cs = filter (in_bounds g) cs"
    using assms by (intro filter_cong refl) (simp add: accepts_in_bounds)
  then show ?thesis by (simp add: filterDots_filter)
qed

text \<open>
  The boundary cases: the areas 30 and 5000 pass bounds of 30 and 5000, the area 29
  does not; the ratio \<open>5/10\<close> is rejected and the ratio \<open>0.50001\<close> passes.
\<close>

theorem C4_filter_bounds_witness:
  "filterDots
     \<lparr>MIN_AREA = Fin 30, MAX_AREA = Fin 5000, EPS = None, cvReady = True,
      videoWidth = 1280, work_width = 1280, work_height = 720\<rparr>
     [\<lparr>area = Fin 30, width = Fin 10, height = Fin 10,
       center_x = Fin 1, center_y = Fin 1, radius = Fin 5\<rparr>,
      \<lparr>area = Fin 5000, width = Fin 10, height = Fin 10,
       center_x = Fin 2, center_y = Fin 2, radius = Fin 5\<rparr>,
      \<lparr>area = Fin 29, width = Fin 10, height = Fin 10,
       center_x = Fin 3, center_y = Fin 3, radius = Fin 5\<rparr>,
      \<lparr>area = Fin 100, width = Fin 5, height = Fin 10,
       center_x = Fin 4, center_y = Fin 4, radius = Fin 5\<rparr>,
      \<lparr>area = Fin 100, width = Fin 50001, height = Fin 100000,
       center_x = Fin 5, center_y = Fin 5, radius = Fin 5\<rparr>] []
   = [\<lparr>x = Fin 1, y = Fin 1, r = Fin 5\<rparr>, \<lparr>x = Fin 2, y = Fin 2, r = Fin 5\<rparr>,
      \<lparr>x = Fin 5, y = Fin 5, r = Fin 5\<rparr>]"
  using C4_filter_bounds
    [of "\<lparr>MIN_AREA = Fin 30, MAX_AREA = Fin 5000, EPS = None, cvReady = True,
      videoWidth = 1280, work_width = 1280, work_height = 720\<rparr>"
     "[\<lparr>area = Fin 30, width = Fin 10, height = Fin 10,
       center_x = Fin 1, center_y = Fin 1, radius = Fin 5\<rparr>,
      \<lparr>area = Fin 5000, width = Fin 10, height = Fin 10,
       center_x = Fin 2, center_y = Fin 2, radius = Fin 5\<rparr>,
      \<lparr>area = Fin 29, width = Fin 10, height = Fin 10,
       center_x = Fin 3, center_y = Fin 3, radius = Fin 5\<rparr>,
      \<lparr>area = Fin 100, width = Fin 5, height = Fin 10,
       center_x = Fin 4, center_y = Fin 4, radius = Fin 5\<rparr>,
      \<lparr>area = Fin 100, width = Fin 50001, height = Fin 100000,
       center_x = Fin 5, center_y = Fin 5, radius = Fin 5\<rparr>]"]
  by (simp add: measured_def in_bounds_def dot_of_def)

text \<open>
  Claim C9 says that a contour with a centre that is not finite is filtered out. The
  filter has no such test: a contour with the centre \<open>(NaN, Infinity)\<close> whose area and
  ratio pass is emitted, with that centre.
\<close>

theorem C9_counterexample:
  "filterDots
     \<lparr>MIN_AREA = Fin 30, MAX_AREA = Fin 5000, EPS = None, cvReady = True,
      videoWidth = 1280, work_width = 1280, work_height = 720\<rparr>
     [\<lparr>area = Fin 100, width = Fin 10, height = Fin 10,
       center_x = NaN, center_y = PInf, radius = Fin 5\<rparr>,
      \<lparr>area = Fin 100, width = Fin 10, height = Fin 10,
       center_x = Fin 7, center_y = Fin 8, radius = Fin 5\<rparr>] []
   = [\<lparr>x = NaN, y = PInf, r = Fin 5\<rparr>, \<lparr>x = Fin 7, y = Fin 8, r = Fin 5\<rparr>]"
  by (simp add: js_ge_def js_gt_def)

text \<open>
  Claim C9, amended. The filter reads the area, the width and the height of a contour
  and nothing else: whether a contour passes does not depend on its centre or radius,
  a contour that passes is emitted with the centre it has, finite or not, and the
  contours are filtered one by one, so the rest of the frame is emitted as it would be
  without it.
\<close>

theorem C9_filter_ignores_coordinates:
  "filterDots g cs [] = map dot_of (filter (accepts g) cs)
   \<and> accepts g (c\<lparr>center_x := a, center_y := b, radius := d\<rparr>) = accepts g c
   \<and> filterDots g (cs @ cs') [] = filterDots g cs [] @ filterDots g cs' []"
  by (simp add: filterDots_filter accepts_def)

section \<open>The box of a tile\<close>
















section \<open>A negative eps\<close>

lemma js_mul_neg_neg: "js_mul (js_neg e) (js_neg e) = js_mul e e"
  by (cases e) simp_all

lemma near_neg: "near (js_neg eps) p q = near eps p q"
  by (simp add: near_def js_mul_neg_neg)

lemma regionQuery_neg: "regionQuery points (js_neg eps) i = regionQuery points eps i"
  by (simp add: regionQuery_def near_neg)

lemma expand_cong_eps:
  assumes "\<And>i. regionQuery points eps' i = regionQuery points eps i"
  shows "expand points eps' minPts clusterIdx visited labels seeds k
           = expand points eps minPts clusterIdx visited labels seeds k"
  using assms
proof (induction points eps minPts clusterIdx visited labels seeds k rule: expand.induct)
  case (1 points eps minPts clusterIdx visited labels seeds k)
  show ?case
  proof (cases "k < length seeds")
    case False
    then show ?thesis by (simp add: expand.simps)
  next
    case True
    define n where "n = seeds ! k"
    show ?thesis
    proof (cases "visited n")
      case v: True
      have "expand points eps' minPts clusterIdx visited (relabel labels n clusterIdx) seeds (k + 1)
          = expand points eps minPts clusterIdx visited (relabel labels n clusterIdx) seeds (k + 1)"
        using "1.IH"(2)[OF True n_def _ "1.prems"] v by simp
      then show ?thesis
        using True v
        by (subst expand.simps, subst (2) expand.simps) (simp add: n_def[symmetric])
    next
      case v: False
      show ?thesis
      proof (cases "regionQuery points eps n")
        case (Inl e)
        then show ?thesis
          using True v "1.prems"
          by (subst expand.simps, subst (2) expand.simps) (simp add: n_def[symmetric])
      next
        case (Inr nbs2)
        have "expand points eps' minPts clusterIdx (visited(n := True))
                (relabel labels n clusterIdx)
                (if minPts \<le> int (length nbs2) then fold Set_add nbs2 seeds else seeds) (k + 1)
            = expand points eps minPts clusterIdx (visited(n := True))
                (relabel labels n clusterIdx)
                (if minPts \<le> int (length nbs2) then fold Set_add nbs2 seeds else seeds) (k + 1)"
          by (rule "1.IH"(1)[OF True n_def v Inr "1.prems"])
        then show ?thesis
          using True v Inr "1.prems"
          by (subst expand.simps, subst (2) expand.simps) (simp add: n_def[symmetric])
      qed
    qed
  qed
qed

lemma visit_cong_eps:
  assumes "\<And>i. regionQuery points eps' i = regionQuery points eps i"
  shows "visit points eps' minPts i st = visit points eps minPts i st"
  unfolding visit_def assms expand_cong_eps[OF assms] by (rule refl)

lemma main_loop_cong_eps:
  assumes "\<And>i. regionQuery points eps' i = regionQuery points eps i"
  shows "main_loop points eps' minPts i st = main_loop points eps minPts i st"
proof (induction "length points - i" arbitrary: i st)
  case 0
  then have "\<not> i < length points" by simp
  then show ?case
    unfolding main_loop.simps[of points eps' minPts i st] main_loop.simps[of points eps minPts i st]
    by simp
next
  case (Suc d)
  then have "\<And>st'. main_loop points eps' minPts (i + 1) st' = main_loop points eps minPts (i + 1) st'"
    by simp
  then show ?case
    unfolding main_loop.simps[of points eps' minPts i st] main_loop.simps[of points eps minPts i st]
      visit_cong_eps[OF assms]
    by (simp split: sum.splits)
qed

lemma dbscan_neg: "dbscan points (js_neg eps) minPts = dbscan points eps minPts"
  by (simp add: dbscan_def main_loop_cong_eps[OF regionQuery_neg])

text \<open>
  Claim C8 says that a negative \<open>eps\<close> is rejected when it is configured and that
  clustering never runs with one. Nothing in the code rejects it: the listener stores
  \<open>-10\<close>, and \<open>analyzeFrame\<close> clusters scenario A with it, with the result of \<open>eps = 10\<close>.
\<close>

theorem C8_counterexample:
  "EPS (epsRange_input (Fin (- 10))
          \<lparr>MIN_AREA = Fin 30, MAX_AREA = Fin 5000, EPS = None, cvReady = True,
           videoWidth = 1280, work_width = 1280, work_height = 720\<rparr>) = Some (Fin (- 10))
   \<and> analyzeFrame
        (epsRange_input (Fin (- 10))
          \<lparr>MIN_AREA = Fin 30, MAX_AREA = Fin 5000, EPS = None, cvReady = True,
           videoWidth = 1280, work_width = 1280, work_height = 720\<rparr>)
        [\<lparr>area = Fin 78, width = Fin 10, height = Fin 10,
          center_x = Fin 0, center_y = Fin 0, radius = Fin 5\<rparr>,
         \<lparr>area = Fin 78, width = Fin 10, height = Fin 10,
          center_x = Fin 5, center_y = Fin 0, radius = Fin 5\<rparr>,
         \<lparr>area = Fin 78, width = Fin 10, height = Fin 10,
          center_x = Fin 100, center_y = Fin 100, radius = Fin 5\<rparr>]
     = Inr \<lparr>total = 3, clusters = [2, 1]\<rparr>
   \<and> dbscan [\<lparr>x = Fin 0, y = Fin 0, r = Fin 5\<rparr>, \<lparr>x = Fin 5, y = Fin 0, r = Fin 5\<rparr>,
             \<lparr>x = Fin 100, y = Fin 100, r = Fin 5\<rparr>] (Fin (- 10)) 1
     = Inr [[\<lparr>x = Fin 0, y = Fin 0, r = Fin 5\<rparr>, \<lparr>x = Fin 5, y = Fin 0, r = Fin 5\<rparr>],
            [\<lparr>x = Fin 100, y = Fin 100, r = Fin 5\<rparr>]]"
  by code_simp

text \<open>
  Claim C8, amended. The listener of the slider stores whatever number it is given as
  \<open>EPS\<close>, negative or not; \<open>analyzeFrame\<close> hands an explicit \<open>EPS\<close> to \<open>dbscan\<close> as it
  is; and since the neighbour test compares with \<open>eps*eps\<close>, \<open>dbscan\<close> with \<open>-eps\<close>
  returns what it returns with \<open>eps\<close>.
\<close>

theorem C8_negative_eps_accepted:
  "EPS (epsRange_input v g) = Some v
   \<and> analyzeFrame (g\<lparr>EPS := Some v, cvReady := True, videoWidth := Suc w\<rparr>) contours
       = (case dbscan (filterDots g contours []) v MIN_PTS of
            Inl e \<Rightarrow> Inl e
          | Inr tiles \<Rightarrow>
              Inr \<lparr>total = length (filterDots g contours []), clusters = map length tiles\<rparr>)
   \<and> dbscan points (js_neg eps) minPts = dbscan points eps minPts"
proof -
  have "filterDots (g\<lparr>EPS := Some v, cvReady := True, videoWidth := Suc w\<rparr>) contours []
          = filterDots g contours []"
    by (simp add: filterDots_filter accepts_def cong: filter_cong)
  then show ?thesis
    by (simp add: epsRange_input_def analyzeFrame_def dbscan_neg Let_def)
qed

theorem C8_negative_eps_accepted_witness:
  "EPS (epsRange_input (Fin (- 10))
          \<lparr>MIN_AREA = Fin 30, MAX_AREA = Fin 5000, EPS = None, cvReady = True,
           videoWidth = 1280, work_width = 1280, work_height = 720\<rparr>) = Some (Fin (- 10))
   \<and> dbscan [\<lparr>x = Fin 0, y = Fin 0, r = Fin 5\<rparr>, \<lparr>x = Fin 5, y = Fin 0, r = Fin 5\<rparr>]
       (js_neg (Fin 10)) 1
     = dbscan [\<lparr>x = Fin 0, y = Fin 0, r = Fin 5\<rparr>, \<lparr>x = Fin 5, y = Fin 0, r = Fin 5\<rparr>]
         (Fin 10) 1"
  using C8_negative_eps_accepted
    [where v = "Fin (- 10)"
       and g = "\<lparr>MIN_AREA = Fin 30, MAX_AREA = Fin 5000, EPS = None, cvReady = True,
                 videoWidth = 1280, work_width = 1280, work_height = 720\<rparr>"
       and points = "[\<lparr>x = Fin 0, y = Fin 0, r = Fin 5\<rparr>, \<lparr>x = Fin 5, y = Fin 0, r = Fin 5\<rparr>]"
       and eps = "Fin 10" and minPts = 1 and w = 0 and contours = "[]"]
  by simp

section \<open>minPts = 1: no noise\<close>





text \<open>
  The centres must be finite for this: a dot with the centre \<open>NaN\<close> is not its own
  neighbour, is labelled \<open>-1\<close>, and gets its tile from the promotion of the lone dots.
\<close>

lemma nan_centre_is_noise:
  "regionQuery [\<lparr>x = NaN, y = Fin 0, r = Fin 5\<rparr>] (Fin 10) 0 = Inr []
   \<and> (case main_loop [\<lparr>x = NaN, y = Fin 0, r = Fin 5\<rparr>] (Fin 10) 1 0 (\<lambda>_. False, \<lambda>_. None, 0) of
        Inl e \<Rightarrow> False
      | Inr (visited, labels, C) \<Rightarrow> labels 0 = Some (- 1) \<and> C = 0)
   \<and> dbscan [\<lparr>x = NaN, y = Fin 0, r = Fin 5\<rparr>] (Fin 10) 1
       = Inr [[\<lparr>x = NaN, y = Fin 0, r = Fin 5\<rparr>]]"
  by code_simp

section \<open>eps = 0: every dot alone\<close>









text \<open>
  The centres must be distinct for this: two dots on one centre are at distance 0 and
  share a tile.
\<close>

lemma same_centre_one_tile:
  "dbscan [\<lparr>x = Fin 3, y = Fin 4, r = Fin 5\<rparr>, \<lparr>x = Fin 3, y = Fin 4, r = Fin 6\<rparr>] (Fin 0) 1
     = Inr [[\<lparr>x = Fin 3, y = Fin 4, r = Fin 5\<rparr>, \<lparr>x = Fin 3, y = Fin 4, r = Fin 6\<rparr>]]"
  by code_simp

end
